theory Spec2Isabelle
  imports Main
begin

section \<open>The benchmark log analyser \<^verbatim>\<open>analyze.py\<close>\<close>

text \<open>
  The program reads a log line by line, keeps a stack of open tasks, closes the innermost
  one on a completion line, counts \<^verbatim>\<open>msm\<close> and \<^verbatim>\<open>fft\<close> events on the innermost open
  task, and finally prints the longest instance of one task name.

  A line is a \<^typ>\<open>string\<close>: its characters are the code points \<open>0 .. 255\<close>. The file is
  a list of lines in file order, each one as the iteration over the file yields it (with its
  terminator, when it has one). An exception of the source is a value of \<open>error\<close>.
\<close>

subsection \<open>The string operations the parser uses\<close>

datatype error =
    InvalidLiteral  \<comment> \<open>\<^verbatim>\<open>ValueError\<close> raised by \<^verbatim>\<open>int(...)\<close>\<close>
  | UnpackError     \<comment> \<open>\<^verbatim>\<open>ValueError\<close> raised by \<^verbatim>\<open>operation, size = ...\<close>\<close>
  | IndexError
  | KeyError

text \<open>\<^verbatim>\<open>s.startswith(p)\<close>\<close>

fun startswith :: "string \<Rightarrow> string \<Rightarrow> bool" where
  "startswith s [] = True"
| "startswith [] (p # ps) = False"
| "startswith (c # cs) (p # ps) = (c = p \<and> startswith cs ps)"

text \<open>\<^verbatim>\<open>sub in s\<close>\<close>

fun str_in :: "string \<Rightarrow> string \<Rightarrow> bool" where
  "str_in sub [] = (sub = [])"
| "str_in sub (c # cs) = (startswith (c # cs) sub \<or> str_in sub cs)"

text \<open>
  \<^verbatim>\<open>s.split(sep)\<close> for a separator that is not empty (the source passes \<^verbatim>\<open>"]"\<close> and
  \<^verbatim>\<open>"Start "\<close>): the occurrences are found from the left and do not overlap.
\<close>

function split_sep :: "string \<Rightarrow> string \<Rightarrow> string list" where
  "split_sep sep [] = [] # []"
| "split_sep sep (c # cs) =
     (if sep \<noteq> [] \<and> startswith (c # cs) sep
      then [] # split_sep sep (drop (length sep) (c # cs))
      else (case split_sep sep cs of [] \<Rightarrow> [c] # [] | p # ps \<Rightarrow> (c # p) # ps))"
  by pat_completeness auto
termination
  by (relation "measure (\<lambda>(sep, s). length s)") auto

text \<open>
  \<^verbatim>\<open>s.split()\<close>: the maximal runs of characters that are not white space. Among the code
  points below 256 the white space of \<^verbatim>\<open>str.split\<close> is 9 to 13, 28 to 32, 133 and 160.
\<close>

definition is_space :: "char \<Rightarrow> bool" where
  "is_space c \<longleftrightarrow> c \<in> set [CHR 0x09, CHR 0x0A, CHR 0x0B, CHR 0x0C, CHR 0x0D,
     CHR 0x1C, CHR 0x1D, CHR 0x1E, CHR 0x1F, CHR 0x20, CHR 0x85, CHR 0xA0]"

fun split_from :: "string \<Rightarrow> string \<Rightarrow> string list" where
  "split_from cur [] = (if cur = [] then [] else [rev cur])"
| "split_from cur (c # cs) =
     (if is_space c
      then (if cur = [] then split_from [] cs else rev cur # split_from [] cs)
      else split_from (c # cur) cs)"

definition split_ws :: "string \<Rightarrow> string list" where
  "split_ws s = split_from [] s"

text \<open>
  \<^verbatim>\<open>int(s)\<close> in base ten: white space on both sides is dropped (here 9 to 13, 32, 133 and
  160; 28 to 31 are not white space for \<^verbatim>\<open>int\<close>), then an optional sign, then decimal
  digits, where two digits may have one underscore between them. The limit that newer
  interpreters put on the number of digits is a configuration of the interpreter and is not
  part of the model.
\<close>

definition is_int_space :: "char \<Rightarrow> bool" where
  "is_int_space c \<longleftrightarrow> c \<in> set [CHR 0x09, CHR 0x0A, CHR 0x0B, CHR 0x0C, CHR 0x0D,
     CHR 0x20, CHR 0x85, CHR 0xA0]"

definition decimal_digits :: "(char \<times> int) list" where
  "decimal_digits = zip ''0123456789'' [0, 1, 2, 3, 4, 5, 6, 7, 8, 9]"

definition digit_value :: "char \<Rightarrow> int option" where
  "digit_value c = map_of decimal_digits c"

fun py_digits :: "int \<Rightarrow> string \<Rightarrow> int option" where
  "py_digits acc [] = Some acc"
| "py_digits acc [c] =
     (case digit_value c of None \<Rightarrow> None | Some d \<Rightarrow> Some (acc * 10 + d))"
| "py_digits acc (c # c' # cs) =
     (if c = CHR ''_''
      then (case digit_value c' of None \<Rightarrow> None | Some d \<Rightarrow> py_digits (acc * 10 + d) cs)
      else (case digit_value c of None \<Rightarrow> None
            | Some d \<Rightarrow> py_digits (acc * 10 + d) (c' # cs)))"

definition py_unsigned :: "string \<Rightarrow> int option" where
  "py_unsigned s =
     (case s of [] \<Rightarrow> None
      | c # cs \<Rightarrow> (case digit_value c of None \<Rightarrow> None | Some d \<Rightarrow> py_digits d cs))"

definition strip_int :: "string \<Rightarrow> string" where
  "strip_int s = dropWhile is_int_space (rev (dropWhile is_int_space (rev s)))"

definition py_int :: "string \<Rightarrow> int option" where
  "py_int s =
     (case strip_int s of [] \<Rightarrow> None
      | c # cs \<Rightarrow>
          if c = CHR ''-'' then map_option uminus (py_unsigned cs)
          else if c = CHR ''+'' then py_unsigned cs
          else py_unsigned (c # cs))"

subsection \<open>Tasks and the state of the loop\<close>

record task =
  task_name :: string
  start_time :: int
  end_time :: int
  duration :: int
  msm :: "string \<rightharpoonup> int"
  fft :: "string \<rightharpoonup> int"

record parser_state =
  active_tasks :: "task list"  \<comment> \<open>the stack of open tasks, innermost last\<close>
  all_tasks :: "task list"     \<comment> \<open>the closed tasks, in the order they were closed\<close>

definition init_state :: parser_state where
  "init_state = \<lparr>active_tasks = [], all_tasks = []\<rparr>"

text \<open>\<^verbatim>\<open>int(line.split("]")[0][3:])\<close>\<close>

definition timestamp_text :: "string \<Rightarrow> string" where
  "timestamp_text line = (case split_sep '']'' line of [] \<Rightarrow> [] | p # ps \<Rightarrow> drop 3 p)"

definition timestamp :: "string \<Rightarrow> error + int" where
  "timestamp line =
     (case py_int (timestamp_text line) of None \<Rightarrow> Inl InvalidLiteral | Some t \<Rightarrow> Inr t)"

text \<open>\<^verbatim>\<open>line.split("Start ")[1][:-1]\<close>\<close>

definition start_name :: "string \<Rightarrow> error + string" where
  "start_name line =
     (case split_sep ''Start '' line of
        p0 # p1 # ps \<Rightarrow> Inr (butlast p1)
      | _ \<Rightarrow> Inl IndexError)"

definition new_task :: "string \<Rightarrow> int \<Rightarrow> task" where
  "new_task name current_time =
     \<lparr>task_name = name, start_time = current_time, end_time = - 1, duration = - 1,
      msm = Map.empty, fft = Map.empty\<rparr>"

text \<open>The three statements of the \<^verbatim>\<open>elif "Done" in line\<close> branch, applied to the top.\<close>

definition close_task :: "int \<Rightarrow> task \<Rightarrow> task" where
  "close_task current_time t =
     t\<lparr>end_time := current_time, duration := current_time - start_time t\<rparr>"

text \<open>
  \<^verbatim>\<open>if size in d: d[size] += 1 else: d[size] = 1\<close>
\<close>

definition bump :: "(string \<rightharpoonup> int) \<Rightarrow> string \<Rightarrow> (string \<rightharpoonup> int)" where
  "bump d sz = (case d sz of None \<Rightarrow> d(sz \<mapsto> 1) | Some n \<Rightarrow> d(sz \<mapsto> n + 1))"

text \<open>
  \<^verbatim>\<open>active_tasks[-1][operation]\<close> is a lookup in the task's dictionary. The branch is
  entered only for a line that starts with \<^verbatim>\<open>msm\<close> or \<^verbatim>\<open>fft\<close>, so the token starts
  with one of them too and is none of the four other keys of the dictionary: it is
  \<^verbatim>\<open>msm\<close>, \<^verbatim>\<open>fft\<close>, or a missing key.
\<close>

definition count_op :: "string \<Rightarrow> string \<Rightarrow> task \<Rightarrow> error + task" where
  "count_op operation sz t =
     (if operation = ''msm'' then Inr (t\<lparr>msm := bump (msm t) sz\<rparr>)
      else if operation = ''fft'' then Inr (t\<lparr>fft := bump (fft t) sz\<rparr>)
      else Inl KeyError)"

subsection \<open>The body of the loop, the loop and the selection\<close>

definition ingest :: "parser_state \<Rightarrow> string \<Rightarrow> error + parser_state" where
  "ingest s line =
     (if startswith line ''[T'' then
        (case timestamp line of
           Inl e \<Rightarrow> Inl e
         | Inr current_time \<Rightarrow>
             if str_in ''Start'' line then
               (case start_name line of
                  Inl e \<Rightarrow> Inl e
                | Inr name \<Rightarrow>
                    Inr (s\<lparr>active_tasks := active_tasks s @ [new_task name current_time]\<rparr>))
             else if str_in ''Done'' line then
               (if active_tasks s = [] then Inl IndexError
                else Inr (s\<lparr>active_tasks := butlast (active_tasks s),
                            all_tasks := all_tasks s
                              @ [close_task current_time (last (active_tasks s))]\<rparr>))
             else Inr s)
      else if startswith line ''msm'' \<or> startswith line ''fft'' then
        (case split_ws line of
           [operation, sz] \<Rightarrow>
             if active_tasks s \<noteq> [] then
               (case count_op operation sz (last (active_tasks s)) of
                  Inl e \<Rightarrow> Inl e
                | Inr t \<Rightarrow> Inr (s\<lparr>active_tasks := butlast (active_tasks s) @ [t]\<rparr>))
             else Inr s
         | _ \<Rightarrow> Inl UnpackError)
      else Inr s)"

fun ingest_all :: "parser_state \<Rightarrow> string list \<Rightarrow> error + parser_state" where
  "ingest_all s [] = Inr s"
| "ingest_all s (line # rest) =
     (case ingest s line of Inl e \<Rightarrow> Inl e | Inr s' \<Rightarrow> ingest_all s' rest)"

text \<open>
  \<^verbatim>\<open>sorted(all_tasks, key=lambda task: task["duration"] * -1)\<close>, then the first task
  with the name. \<^const>\<open>sort_key\<close> is a stable insertion sort, as \<^verbatim>\<open>sorted\<close> is stable.
\<close>

definition slowest :: "string \<Rightarrow> task list \<Rightarrow> task option" where
  "slowest name tasks =
     find (\<lambda>t. task_name t = name) (sort_key (\<lambda>t. duration t * - 1) tasks)"

text \<open>The whole function: what it prints (\<open>None\<close> when it prints nothing), or how it fails.\<close>

definition parse_logs :: "string list \<Rightarrow> error + task option" where
  "parse_logs lines =
     (case ingest_all init_state lines of
        Inl e \<Rightarrow> Inl e
      | Inr s \<Rightarrow> Inr (slowest ''committing to advice columns'' (all_tasks s)))"

subsection \<open>Events and nesting\<close>

text \<open>
  The two branches of the loop body that push and pop, as predicates on a line: the test
  for \<^verbatim>\<open>Start\<close> comes first, so a line with both words is a start line.
\<close>

definition is_start_line :: "string \<Rightarrow> bool" where
  "is_start_line line \<longleftrightarrow> startswith line ''[T'' \<and> str_in ''Start'' line"

definition is_done_line :: "string \<Rightarrow> bool" where
  "is_done_line line \<longleftrightarrow>
     startswith line ''[T'' \<and> \<not> str_in ''Start'' line \<and> str_in ''Done'' line"

datatype event = Start | Done | Other

definition event_of :: "string \<Rightarrow> event" where
  "event_of line =
     (if is_start_line line then Start else if is_done_line line then Done else Other)"

text \<open>
  A sequence of events is balanced from depth \<open>d\<close> when no completion comes at depth 0
  and the depth is 0 at the end. A log is well nested when its events are balanced from 0:
  every start has its completion, and every completion its start.
\<close>

fun balanced_from :: "nat \<Rightarrow> event list \<Rightarrow> bool" where
  "balanced_from d [] = (d = 0)"
| "balanced_from d (Start # es) = balanced_from (Suc d) es"
| "balanced_from d (Done # es) = (0 < d \<and> balanced_from (d - 1) es)"
| "balanced_from d (Other # es) = balanced_from d es"

definition well_nested :: "string list \<Rightarrow> bool" where
  "well_nested ls = balanced_from 0 (map event_of ls)"

text \<open>
  A closed task \<open>t\<close> comes from a start line and the completion line that matches it (the
  lines between them are well nested): the start line gives its name and start time, the
  completion line its end time.
\<close>

definition closed_by :: "string list \<Rightarrow> task \<Rightarrow> bool" where
  "closed_by ls t \<longleftrightarrow>
     (\<exists>pre sl body dl post.
        ls = pre @ sl # body @ dl # post \<and>
        is_start_line sl \<and> is_done_line dl \<and> well_nested body \<and>
        timestamp sl = Inr (start_time t) \<and> start_name sl = Inr (task_name t) \<and>
        timestamp dl = Inr (end_time t))"

text \<open>
  The stack of open tasks against the lines read so far: each open task has its start
  line, and what follows a start line up to the next open one is well nested.
\<close>

inductive tracks :: "string list \<Rightarrow> task list \<Rightarrow> bool" where
  tracks_empty: "well_nested body \<Longrightarrow> tracks body []"
| tracks_open:
    "tracks pre stack \<Longrightarrow> is_start_line sl \<Longrightarrow> timestamp sl = Inr (start_time t) \<Longrightarrow>
     start_name sl = Inr (task_name t) \<Longrightarrow> well_nested body \<Longrightarrow>
     tracks (pre @ sl # body) (stack @ [t])"

text \<open>
  A line that cannot fail, whatever the stack is, as long as a completion finds a task.
\<close>

definition line_ok :: "string \<Rightarrow> bool" where
  "line_ok line \<longleftrightarrow>
     (if startswith line ''[T''
      then py_int (timestamp_text line) \<noteq> None \<and>
           (str_in ''Start'' line \<longrightarrow> str_in ''Start '' line)
      else if startswith line ''msm'' \<or> startswith line ''fft''
      then (case split_ws line of
              [operation, sz] \<Rightarrow> operation = ''msm'' \<or> operation = ''fft''
            | _ \<Rightarrow> False)
      else True)"

subsection \<open>The specification's reading of a line\<close>

text \<open>
  These three follow the words of the specification, not the source. The text before and
  after the first occurrence of a marker:
\<close>

fun before_first :: "string \<Rightarrow> string \<Rightarrow> string" where
  "before_first sub [] = []"
| "before_first sub (c # cs) =
     (if startswith (c # cs) sub then [] else c # before_first sub cs)"

fun after_first :: "string \<Rightarrow> string \<Rightarrow> string option" where
  "after_first sub [] = (if sub = [] then Some [] else None)"
| "after_first sub (c # cs) =
     (if startswith (c # cs) sub then Some (drop (length sub) (c # cs))
      else after_first sub cs)"

text \<open>
  The specification's timestamp: the integer immediately after the literal \<^verbatim>\<open>T\<close>,
  terminated by \<^verbatim>\<open>]\<close>.
\<close>

definition spec_timestamp :: "string \<Rightarrow> int option" where
  "spec_timestamp line = py_int (drop 2 (before_first '']'' line))"

text \<open>
  The task name as the text after the first occurrence of \<^verbatim>\<open>Start \<close>, without its
  last character.
\<close>

definition spec_task_name :: "string \<Rightarrow> string option" where
  "spec_task_name line = map_option butlast (after_first ''Start '' line)"

subsection \<open>Example logs and states\<close>

definition scenario_log :: "string list" where
  "scenario_log =
     [''[T 0] Start outer\<newline>'', ''[T 5] Start inner\<newline>'', ''msm 10\<newline>'',
      ''msm 10\<newline>'', ''[T 8] Done inner\<newline>'', ''fft 20\<newline>'',
      ''[T 20] Done outer\<newline>'']"

definition scenario_inner :: task where
  "scenario_inner =
     \<lparr>task_name = ''inner'', start_time = 5, end_time = 8, duration = 3,
      msm = [''10'' \<mapsto> 2], fft = Map.empty\<rparr>"

definition scenario_outer :: task where
  "scenario_outer =
     \<lparr>task_name = ''outer'', start_time = 0, end_time = 20, duration = 20,
      msm = Map.empty, fft = [''20'' \<mapsto> 1]\<rparr>"

definition one_open :: parser_state where
  "one_open = \<lparr>active_tasks = [new_task ''outer'' 0], all_tasks = []\<rparr>"

definition two_open :: parser_state where
  "two_open = \<lparr>active_tasks = [new_task ''outer'' 0, new_task ''inner'' 5], all_tasks = []\<rparr>"

definition tie_tasks :: "task list" where
  "tie_tasks =
     [\<lparr>task_name = ''work'', start_time = 0, end_time = 5, duration = 5,
        msm = Map.empty, fft = Map.empty\<rparr>,
      \<lparr>task_name = ''work'', start_time = 10, end_time = 15, duration = 5,
        msm = Map.empty, fft = Map.empty\<rparr>,
      \<lparr>task_name = ''work'', start_time = 20, end_time = 30, duration = 10,
        msm = Map.empty, fft = Map.empty\<rparr>]"

section \<open>Properties\<close>

subsection \<open>Strings\<close>

lemma startswith_append: "startswith s p \<longleftrightarrow> (\<exists>r. s = p @ r)"
  by (induction s p rule: startswith.induct) auto

lemma str_in_after_first: "str_in sub s \<longleftrightarrow> after_first sub s \<noteq> None"
  by (induction s) auto

lemma before_first_id: "\<not> str_in sub s \<Longrightarrow> before_first sub s = s"
  by (induction s) auto

text \<open>The first piece of a split is the text before the first separator, and so on.\<close>

lemma split_sep_first:
  "sep \<noteq> [] \<Longrightarrow> split_sep sep s =
     before_first sep s # (case after_first sep s of None \<Rightarrow> [] | Some r \<Rightarrow> split_sep sep r)"
proof (induction sep s rule: split_sep.induct)
  case (1 sep)
  then show ?case by simp
next
  case (2 sep c cs)
  show ?case
  proof (cases "startswith (c # cs) sep")
    case True
    then show ?thesis using 2 by simp
  next
    case False
    then show ?thesis using 2 by (simp split: option.splits)
  qed
qed

lemma split_sep_second:
  assumes "sep \<noteq> []" and "after_first sep s = Some r"
  shows "\<exists>ps. split_sep sep s = before_first sep s # before_first sep r # ps"
proof -
  have "split_sep sep s = before_first sep s # split_sep sep r"
    using split_sep_first [OF assms(1), of s] assms(2) by simp
  then show ?thesis using split_sep_first [OF assms(1), of r] by simp
qed

lemma timestamp_text_before: "timestamp_text line = drop 3 (before_first '']'' line)"
  using split_sep_first [of "'']''" line] by (simp add: timestamp_text_def)

lemma split_from_nospace:
  "\<forall>c\<in>set p. \<not> is_space c \<Longrightarrow> split_from cur (p @ r) = split_from (rev p @ cur) r"
  by (induction p arbitrary: cur) auto

lemma split_from_token:
  "cur \<noteq> [] \<Longrightarrow> \<exists>tok rest. split_from cur r = (rev cur @ tok) # rest"
proof (induction r arbitrary: cur)
  case Nil
  then show ?case by simp
next
  case (Cons a r)
  show ?case
  proof (cases "is_space a")
    case True
    then show ?thesis using Cons.prems by simp
  next
    case False
    obtain tok rest where "split_from (a # cur) r = (rev (a # cur) @ tok) # rest"
      using Cons.IH [of "a # cur"] by auto
    then have "split_from cur (a # r) = (rev cur @ (a # tok)) # rest"
      using False by simp
    then show ?thesis by blast
  qed
qed

text \<open>A line that starts with a word starts its first token with that word.\<close>

lemma first_token_prefix:
  assumes "startswith line p" and "p \<noteq> []" and "\<forall>c\<in>set p. \<not> is_space c"
  shows "\<exists>tok rest. split_ws line = tok # rest \<and> startswith tok p"
proof -
  obtain r where r: "line = p @ r" using assms(1) by (auto simp: startswith_append)
  have "split_ws line = split_from (rev p) r"
    using split_from_nospace [OF assms(3), of "[]" r] r by (simp add: split_ws_def)
  moreover obtain tok rest where "split_from (rev p) r = (rev (rev p) @ tok) # rest"
    using split_from_token [of "rev p" r] assms(2) by auto
  ultimately show ?thesis by (auto simp: startswith_append)
qed

text \<open>
  So the key that the counting branch looks up starts with \<^verbatim>\<open>msm\<close> or \<^verbatim>\<open>fft\<close>: it is
  never one of the other four keys of a task.
\<close>

lemma operation_token_prefix:
  assumes "startswith line ''msm'' \<or> startswith line ''fft''"
    and "split_ws line = operation # rest"
  shows "startswith operation ''msm'' \<or> startswith operation ''fft''"
  using assms first_token_prefix [of line "''msm''"] first_token_prefix [of line "''fft''"]
  by (auto simp: is_space_def)

lemma op_line_not_timed:
  "startswith line ''msm'' \<or> startswith line ''fft'' \<Longrightarrow> \<not> startswith line ''[T''"
  by (cases line) auto

subsection \<open>The loop\<close>

lemma ingest_all_append:
  "ingest_all s (xs @ ys) =
     (case ingest_all s xs of Inl e \<Rightarrow> Inl e | Inr s' \<Rightarrow> ingest_all s' ys)"
  by (induction xs arbitrary: s) (auto split: sum.splits)

lemma ingest_all_snoc:
  "ingest_all s0 (ls @ [x]) = Inr s' \<longleftrightarrow>
     (\<exists>s. ingest_all s0 ls = Inr s \<and> ingest s x = Inr s')"
  by (auto simp: ingest_all_append split: sum.splits)

text \<open>An exception in the loop ends the run: nothing is sorted and nothing is printed.\<close>

lemma parse_logs_abort:
  "ingest_all init_state pre = Inr s \<Longrightarrow> ingest s line = Inl e \<Longrightarrow>
   parse_logs (pre @ line # post) = Inl e"
  by (simp add: parse_logs_def ingest_all_append)

lemma ingest_start:
  assumes "is_start_line x" and "ingest s x = Inr s'"
  shows "\<exists>t nm. timestamp x = Inr t \<and> start_name x = Inr nm \<and>
           s' = s\<lparr>active_tasks := active_tasks s @ [new_task nm t]\<rparr>"
  using assms by (auto simp: ingest_def is_start_line_def split: sum.splits)

lemma ingest_done:
  assumes "is_done_line x" and "ingest s x = Inr s'"
  shows "\<exists>t. timestamp x = Inr t \<and> active_tasks s \<noteq> [] \<and>
           s' = s\<lparr>active_tasks := butlast (active_tasks s),
                  all_tasks := all_tasks s @ [close_task t (last (active_tasks s))]\<rparr>"
  using assms by (auto simp: ingest_def is_done_line_def split: sum.splits if_splits)

lemma count_op_keeps:
  "count_op operation sz t = Inr t' \<Longrightarrow>
     task_name t' = task_name t \<and> start_time t' = start_time t"
  by (auto simp: count_op_def split: if_splits)

lemma ingest_other:
  assumes "event_of x = Other" and "ingest s x = Inr s'"
  shows "all_tasks s' = all_tasks s \<and>
         (active_tasks s' = active_tasks s \<or>
          (active_tasks s \<noteq> [] \<and>
           (\<exists>t'. active_tasks s' = butlast (active_tasks s) @ [t'] \<and>
                 task_name t' = task_name (last (active_tasks s)) \<and>
                 start_time t' = start_time (last (active_tasks s)))))"
proof (cases "startswith x ''[T''")
  case True
  then have "\<not> str_in ''Start'' x" and "\<not> str_in ''Done'' x"
    using assms(1)
    by (auto simp: event_of_def is_start_line_def is_done_line_def split: if_splits)
  then show ?thesis using True assms(2) by (auto simp: ingest_def split: sum.splits)
next
  case False
  then show ?thesis using assms(2)
    by (auto simp: ingest_def split: sum.splits if_splits list.splits dest: count_op_keeps)
qed

subsection \<open>Nesting\<close>

lemma balanced_from_append:
  "balanced_from a xs \<Longrightarrow> balanced_from b ys \<Longrightarrow> balanced_from (a + b) (xs @ ys)"
proof (induction xs arbitrary: a)
  case Nil
  then show ?case by simp
next
  case (Cons e xs)
  show ?case
  proof (cases e)
    case Start
    then show ?thesis using Cons.IH [of "Suc a"] Cons.prems by simp
  next
    case Done
    then have "0 < a" and "balanced_from (a - 1) xs" using Cons.prems by auto
    then show ?thesis using Cons.IH [of "a - 1"] Cons.prems Done by simp
  next
    case Other
    then show ?thesis using Cons.IH [of a] Cons.prems by simp
  qed
qed

lemma balanced_from_counts:
  "balanced_from d es \<Longrightarrow>
     d + length (filter (\<lambda>e. e = Start) es) = length (filter (\<lambda>e. e = Done) es)"
  by (induction d es rule: balanced_from.induct) auto

lemma filter_event_start:
  "length (filter (\<lambda>e. e = Start) (map event_of ls)) = length (filter is_start_line ls)"
  by (induction ls) (auto simp: event_of_def)

lemma filter_event_done:
  "length (filter (\<lambda>e. e = Done) (map event_of ls)) = length (filter is_done_line ls)"
  by (induction ls) (auto simp: event_of_def is_start_line_def is_done_line_def)

lemma well_nested_append: "well_nested a \<Longrightarrow> well_nested b \<Longrightarrow> well_nested (a @ b)"
  using balanced_from_append [of 0 "map event_of a" 0 "map event_of b"]
  by (simp add: well_nested_def)

lemma event_of_start: "is_start_line l \<Longrightarrow> event_of l = Start"
  by (simp add: event_of_def)

lemma event_of_done: "is_done_line l \<Longrightarrow> event_of l = Done"
  by (simp add: event_of_def is_done_line_def is_start_line_def)

lemma well_nested_wrap:
  assumes "is_start_line sl" and "well_nested body" and "is_done_line dl"
  shows "well_nested (sl # body @ [dl])"
proof -
  have "balanced_from (0 + 1) (map event_of body @ [Done])"
    using assms(2) by (intro balanced_from_append) (simp_all add: well_nested_def)
  then show ?thesis using assms(1,3)
    by (simp add: well_nested_def event_of_start event_of_done)
qed

lemma well_nested_other: "event_of x = Other \<Longrightarrow> well_nested [x]"
  by (simp add: well_nested_def)

lemma tracks_extend:
  assumes "tracks pre st" and "well_nested ext"
  shows "tracks (pre @ ext) st"
  using assms(1)
proof (cases rule: tracks.cases)
  case tracks_empty
  then show ?thesis using assms(2) by (auto intro: tracks.tracks_empty well_nested_append)
next
  case (tracks_open pre' stack sl t body)
  have "tracks (pre' @ sl # (body @ ext)) (stack @ [t])"
    using tracks_open assms(2) by (intro tracks.tracks_open well_nested_append)
  then show ?thesis using tracks_open by simp
qed

lemma tracks_top_cong:
  assumes "tracks ls (st @ [t])" and "start_time t' = start_time t"
    and "task_name t' = task_name t"
  shows "tracks ls (st @ [t'])"
  using assms(1)
proof (cases rule: tracks.cases)
  case tracks_empty
  then show ?thesis by simp
next
  case (tracks_open pre stack sl t0 body)
  then have "stack = st" and "t0 = t" by auto
  then show ?thesis using tracks_open assms(2,3) by (auto intro: tracks.tracks_open)
qed

lemma closed_by_extend: "closed_by ls t \<Longrightarrow> closed_by (ls @ ext) t"
  unfolding closed_by_def
proof (elim exE conjE)
  fix pre sl body dl post
  assume "ls = pre @ sl # body @ dl # post" and rest: "is_start_line sl" "is_done_line dl"
    "well_nested body" "timestamp sl = Inr (start_time t)"
    "start_name sl = Inr (task_name t)" "timestamp dl = Inr (end_time t)"
  then have "ls @ ext = pre @ sl # body @ dl # (post @ ext)" by simp
  then show "\<exists>pre sl body dl post. ls @ ext = pre @ sl # body @ dl # post \<and>
        is_start_line sl \<and> is_done_line dl \<and> well_nested body \<and>
        timestamp sl = Inr (start_time t) \<and> start_name sl = Inr (task_name t) \<and>
        timestamp dl = Inr (end_time t)"
    using rest by blast
qed

text \<open>
  What holds after every prefix of a run that has not failed: the stack is the open start
  lines, and every closed task has its duration and its two lines.
\<close>

lemma run_invariant:
  "ingest_all init_state ls = Inr s \<Longrightarrow>
     tracks ls (active_tasks s) \<and>
     (\<forall>t\<in>set (all_tasks s). duration t = end_time t - start_time t \<and> closed_by ls t)"
proof (induction ls arbitrary: s rule: rev_induct)
  case Nil
  then have "s = init_state" by simp
  moreover have "tracks [] []" by (rule tracks_empty) (simp add: well_nested_def)
  ultimately show ?case by (simp add: init_state_def)
next
  case (snoc x ls)
  then obtain s0 where run: "ingest_all init_state ls = Inr s0" and step: "ingest s0 x = Inr s"
    by (auto simp: ingest_all_snoc)
  have tr: "tracks ls (active_tasks s0)"
    and cl: "\<forall>t\<in>set (all_tasks s0). duration t = end_time t - start_time t \<and> closed_by ls t"
    using snoc.IH [OF run] by auto
  have cl': "\<forall>t\<in>set (all_tasks s0).
      duration t = end_time t - start_time t \<and> closed_by (ls @ [x]) t"
    using cl closed_by_extend by blast
  show ?case
  proof (cases "event_of x")
    case Start
    then have sl: "is_start_line x" by (auto simp: event_of_def split: if_splits)
    then obtain t nm where t: "timestamp x = Inr t" and nm: "start_name x = Inr nm"
      and s: "s = s0\<lparr>active_tasks := active_tasks s0 @ [new_task nm t]\<rparr>"
      using ingest_start [OF _ step] by blast
    have "tracks (ls @ x # []) (active_tasks s0 @ [new_task nm t])"
      using tr sl t nm by (intro tracks_open) (simp_all add: new_task_def well_nested_def)
    then show ?thesis using s cl' by simp
  next
    case Done
    then have dl: "is_done_line x" by (auto simp: event_of_def split: if_splits)
    then obtain t where t: "timestamp x = Inr t" and ne: "active_tasks s0 \<noteq> []"
      and s: "s = s0\<lparr>active_tasks := butlast (active_tasks s0),
                  all_tasks := all_tasks s0 @ [close_task t (last (active_tasks s0))]\<rparr>"
      using ingest_done [OF _ step] by blast
    define st top where "st = butlast (active_tasks s0)" and "top = last (active_tasks s0)"
    have act: "active_tasks s0 = st @ [top]" using ne by (simp add: st_def top_def)
    from tr [unfolded act] obtain pre sl body where ls: "ls = pre @ sl # body"
      and pre: "tracks pre st" and sl: "is_start_line sl"
      and ts: "timestamp sl = Inr (start_time top)"
      and nm: "start_name sl = Inr (task_name top)"
      and body: "well_nested body"
      by (cases rule: tracks.cases) auto
    have "tracks (pre @ (sl # body @ [x])) st"
      using pre well_nested_wrap [OF sl body dl] by (rule tracks_extend)
    then have tr': "tracks (ls @ [x]) st" using ls by simp
    have "ls @ [x] = pre @ sl # body @ x # []" using ls by simp
    then have "closed_by (ls @ [x]) (close_task t top)"
      unfolding closed_by_def using sl dl body ts nm t
      by (intro exI [of _ pre] exI [of _ sl] exI [of _ body] exI [of _ x] exI [of _ "[]"])
        (simp add: close_task_def)
    moreover have "duration (close_task t top)
        = end_time (close_task t top) - start_time (close_task t top)"
      by (simp add: close_task_def)
    ultimately show ?thesis using s tr' cl' by (auto simp: st_def top_def)
  next
    case Other
    have tr': "tracks (ls @ [x]) (active_tasks s0)"
      using tr well_nested_other [OF Other] by (rule tracks_extend)
    have all: "all_tasks s = all_tasks s0" using ingest_other [OF Other step] by simp
    have "tracks (ls @ [x]) (active_tasks s)"
    proof (cases "active_tasks s = active_tasks s0")
      case True
      then show ?thesis using tr' by simp
    next
      case False
      then obtain t' where ne: "active_tasks s0 \<noteq> []"
        and a: "active_tasks s = butlast (active_tasks s0) @ [t']"
        and k: "task_name t' = task_name (last (active_tasks s0))"
               "start_time t' = start_time (last (active_tasks s0))"
        using ingest_other [OF Other step] by auto
      have "tracks (ls @ [x]) (butlast (active_tasks s0) @ [last (active_tasks s0)])"
        using tr' ne by simp
      then show ?thesis using a k tracks_top_cong by metis
    qed
    then show ?thesis using all cl' by simp
  qed
qed

lemma run_counts:
  "ingest_all init_state ls = Inr s \<Longrightarrow>
     length (all_tasks s) = length (filter is_done_line ls) \<and>
     length (active_tasks s) + length (filter is_done_line ls)
       = length (filter is_start_line ls)"
proof (induction ls arbitrary: s rule: rev_induct)
  case Nil
  then have "s = init_state" by simp
  then show ?case by (simp add: init_state_def)
next
  case (snoc x ls)
  then obtain s0 where run: "ingest_all init_state ls = Inr s0" and step: "ingest s0 x = Inr s"
    by (auto simp: ingest_all_snoc)
  note IH = snoc.IH [OF run]
  show ?case
  proof (cases "event_of x")
    case Start
    then have sl: "is_start_line x" by (auto simp: event_of_def split: if_splits)
    then have "\<not> is_done_line x" by (simp add: is_start_line_def is_done_line_def)
    then show ?thesis using ingest_start [OF sl step] IH sl by auto
  next
    case Done
    then have dl: "is_done_line x" by (auto simp: event_of_def split: if_splits)
    then have ns: "\<not> is_start_line x" by (simp add: is_start_line_def is_done_line_def)
    obtain t where ne: "active_tasks s0 \<noteq> []"
      and s: "s = s0\<lparr>active_tasks := butlast (active_tasks s0),
                  all_tasks := all_tasks s0 @ [close_task t (last (active_tasks s0))]\<rparr>"
      using ingest_done [OF dl step] by blast
    obtain n where "length (active_tasks s0) = Suc n"
      using ne by (cases "active_tasks s0") auto
    then show ?thesis using s IH dl ns by simp
  next
    case Other
    then have "\<not> is_start_line x" and "\<not> is_done_line x"
      by (auto simp: event_of_def split: if_splits)
    moreover have "length (active_tasks s) = length (active_tasks s0)"
      using ingest_other [OF Other step] by auto
    moreover have "all_tasks s = all_tasks s0" using ingest_other [OF Other step] by simp
    ultimately show ?thesis using IH by simp
  qed
qed

text \<open>
  A run does not fail when every line is well formed and the log is well nested: the
  hypothesis of a run that has not failed is met by every such log.
\<close>

lemma start_name_ok:
  assumes "str_in ''Start '' line"
  shows "\<exists>nm. start_name line = Inr nm"
proof -
  obtain r where "after_first ''Start '' line = Some r"
    using assms by (auto simp: str_in_after_first)
  then obtain ps where "split_sep ''Start '' line
      = before_first ''Start '' line # before_first ''Start '' r # ps"
    using split_sep_second [of "''Start ''" line r] by auto
  then show ?thesis by (simp add: start_name_def)
qed

lemma ingest_ok_step:
  assumes "line_ok x" and "event_of x = Done \<longrightarrow> active_tasks s \<noteq> []"
  shows "\<exists>s'. ingest s x = Inr s' \<and>
           length (active_tasks s') =
             (case event_of x of Start \<Rightarrow> Suc (length (active_tasks s))
              | Done \<Rightarrow> length (active_tasks s) - 1
              | Other \<Rightarrow> length (active_tasks s))"
proof (cases "startswith x ''[T''")
  case True
  then obtain t where t: "timestamp x = Inr t"
    using assms(1) by (auto simp: line_ok_def timestamp_def)
  show ?thesis
  proof (cases "str_in ''Start'' x")
    case True
    then obtain nm where "start_name x = Inr nm"
      using assms(1) \<open>startswith x ''[T''\<close> start_name_ok by (auto simp: line_ok_def)
    then show ?thesis using True t \<open>startswith x ''[T''\<close>
      by (simp add: ingest_def event_of_def is_start_line_def)
  next
    case False
    then show ?thesis using t \<open>startswith x ''[T''\<close> assms(2)
      by (auto simp: ingest_def event_of_def is_start_line_def is_done_line_def)
  qed
next
  case False
  then have ev: "event_of x = Other"
    by (simp add: event_of_def is_start_line_def is_done_line_def)
  show ?thesis
  proof (cases "startswith x ''msm'' \<or> startswith x ''fft''")
    case True
    then obtain operation sz where "split_ws x = [operation, sz]"
      and "operation = ''msm'' \<or> operation = ''fft''"
      using assms(1) False by (auto simp: line_ok_def split: list.splits)
    then show ?thesis using True False ev
      by (auto simp: ingest_def count_op_def)
  next
    case False
    then show ?thesis using \<open>\<not> startswith x ''[T''\<close> ev by (simp add: ingest_def)
  qed
qed

lemma run_succeeds_from:
  "\<forall>l\<in>set ls. line_ok l \<Longrightarrow>
   balanced_from (length (active_tasks s)) (map event_of ls) \<Longrightarrow>
   \<exists>s'. ingest_all s ls = Inr s'"
proof (induction ls arbitrary: s)
  case Nil
  then show ?case by simp
next
  case (Cons x ls)
  have ne: "event_of x = Done \<longrightarrow> active_tasks s \<noteq> []"
    using Cons.prems(2) by auto
  obtain s1 where step: "ingest s x = Inr s1"
    and len: "length (active_tasks s1) =
             (case event_of x of Start \<Rightarrow> Suc (length (active_tasks s))
              | Done \<Rightarrow> length (active_tasks s) - 1
              | Other \<Rightarrow> length (active_tasks s))"
    using ingest_ok_step [OF _ ne, of ] Cons.prems(1) by auto
  have "balanced_from (length (active_tasks s1)) (map event_of ls)"
    using Cons.prems(2) len by (cases "event_of x") auto
  then obtain s' where "ingest_all s1 ls = Inr s'"
    using Cons.IH [of s1] Cons.prems(1) by auto
  then show ?case using step by simp
qed

lemma well_formed_log_succeeds:
  assumes "\<forall>l\<in>set ls. line_ok l" and "well_nested ls"
  shows "\<exists>s. ingest_all init_state ls = Inr s"
  using run_succeeds_from [of ls init_state] assms
  by (simp add: well_nested_def init_state_def)

subsection \<open>Sorting and selecting\<close>

lemma find_filter:
  "find P xs = (case filter P xs of [] \<Rightarrow> None | x # _ \<Rightarrow> Some x)"
  by (induction xs) auto

lemma sort_key_head:
  assumes "\<forall>a\<in>set as. f z < f a" and "\<forall>b\<in>set bs. f z \<le> f b"
  shows "\<exists>rest. sort_key f (as @ z # bs) = z # rest"
  using assms(1)
proof (induction as)
  case Nil
  have "insort_key f z (sort_key f bs) = z # sort_key f bs"
    using assms(2) by (intro insort_is_Cons) simp
  then show ?case by simp
next
  case (Cons a as)
  then obtain rest where "sort_key f (as @ z # bs) = z # rest" by auto
  moreover have "\<not> f a \<le> f z" using Cons.prems by auto
  ultimately show ?case by simp
qed

subsection \<open>The example log\<close>

lemmas run_defs = init_state_def ingest_def timestamp_def timestamp_text_def py_int_def
  strip_int_def is_int_space_def py_unsigned_def digit_value_def
  decimal_digits_def start_name_def new_task_def
  close_task_def split_ws_def is_space_def count_op_def bump_def

lemma scenario_run:
  "ingest_all init_state scenario_log
     = Inr \<lparr>active_tasks = [], all_tasks = [scenario_inner, scenario_outer]\<rparr>"
  by (simp add: scenario_log_def scenario_inner_def scenario_outer_def run_defs)

lemma scenario_nested: "well_nested scenario_log"
  by (simp add: scenario_log_def well_nested_def event_of_def is_start_line_def
      is_done_line_def)

text \<open>
  The same log written without the character after \<^verbatim>\<open>T\<close> fails on its first line: the
  fourth character of \<^verbatim>\<open>[T0]\<close> is the bracket, and nothing is left to read.
\<close>

lemma scenario_without_gap_fails:
  "ingest init_state ''[T0] Start outer\<newline>'' = Inl InvalidLiteral"
  by (simp add: run_defs)

section \<open>The claims\<close>

subsection \<open>C1: the times of a closed task\<close>

text \<open>
  Claim C1, as amended. In a run that does not fail, every closed task has
  \<open>duration = end_time - start_time\<close>, and its \<open>start_time\<close> and \<open>end_time\<close> are the
  timestamps of its start line and of the matching completion line, where the timestamp of
  a line is what \<^verbatim>\<open>int\<close> reads in the text from the fourth character of the line (the
  character after \<^verbatim>\<open>[T\<close> is skipped) up to the first \<^verbatim>\<open>]\<close>.
\<close>

theorem closed_task_times:
  assumes "ingest_all init_state ls = Inr s" and "t \<in> set (all_tasks s)"
  shows "duration t = end_time t - start_time t \<and> closed_by ls t"
  using run_invariant [OF assms(1)] assms(2) by blast

text \<open>On the example log, for its inner task.\<close>

theorem closed_task_times_witness:
  "ingest_all init_state scenario_log
     = Inr \<lparr>active_tasks = [], all_tasks = [scenario_inner, scenario_outer]\<rparr> \<and>
   duration scenario_inner = end_time scenario_inner - start_time scenario_inner \<and>
   closed_by scenario_log scenario_inner"
  using closed_task_times [OF scenario_run, of scenario_inner] scenario_run by simp

text \<open>
  Claim C1 as it is stated fails: with the timestamp read immediately after the \<^verbatim>\<open>T\<close>,
  the task of this log would start at 123 and end at 456; the program records 23 and 56.
\<close>

theorem closed_task_times_counterexample:
  "ingest_all init_state [''[T123] Start a\<newline>'', ''[T456] Done a\<newline>'']
     = Inr \<lparr>active_tasks = [],
            all_tasks = [\<lparr>task_name = ''a'', start_time = 23, end_time = 56, duration = 33,
                         msm = Map.empty, fft = Map.empty\<rparr>]\<rparr> \<and>
   spec_timestamp ''[T123] Start a\<newline>'' = Some 123 \<and>
   spec_timestamp ''[T456] Done a\<newline>'' = Some 456"
  by (simp add: spec_timestamp_def run_defs)

subsection \<open>C2: the tie-break of the selection\<close>

text \<open>
  Claim C2, as amended. When the closed tasks contain two tasks \<open>a\<close> (closed earlier) and
  \<open>b\<close> with the queried name and the same duration, no task with that name lasts longer,
  and no task with that name closed before \<open>a\<close> has this duration, then the selection
  (stable sort by descending duration, first match of the name) returns \<open>a\<close>.
\<close>

theorem slowest_tie_break:
  assumes "tasks = pre @ a # mid @ b # post"
    and "task_name a = name" and "task_name b = name" and "duration a = duration b"
    and "\<forall>t\<in>set tasks. task_name t = name \<longrightarrow> duration t \<le> duration a"
    and "\<forall>t\<in>set pre. task_name t = name \<longrightarrow> duration t \<noteq> duration a"
  shows "slowest name tasks = Some a"
proof -
  let ?P = "\<lambda>t. task_name t = name" and ?f = "\<lambda>t. duration t * - 1"
  have split: "filter ?P tasks = filter ?P pre @ a # filter ?P (mid @ b # post)"
    using assms(1,2) by simp
  have le: "duration t \<le> duration a" if "t \<in> set tasks" and "task_name t = name" for t
    using assms(5) that by blast
  have "\<forall>t\<in>set (filter ?P pre). ?f a < ?f t"
  proof
    fix t assume "t \<in> set (filter ?P pre)"
    then have "t \<in> set pre" and "task_name t = name" by auto
    then have "duration t \<le> duration a" and "duration t \<noteq> duration a"
      using le [of t] assms(1,6) by auto
    then show "?f a < ?f t" by simp
  qed
  moreover have "\<forall>t\<in>set (filter ?P (mid @ b # post)). ?f a \<le> ?f t"
  proof
    fix t assume "t \<in> set (filter ?P (mid @ b # post))"
    then have "t \<in> set (mid @ b # post)" and "task_name t = name"
      unfolding set_filter by blast+
    then have "t \<in> set tasks" and "task_name t = name" using assms(1) by auto
    then have "duration t \<le> duration a" by (rule le)
    then show "?f a \<le> ?f t" by simp
  qed
  ultimately obtain rest where "sort_key ?f (filter ?P tasks) = a # rest"
    using sort_key_head [of "filter ?P pre" ?f a "filter ?P (mid @ b # post)"] split by auto
  then have "filter ?P (sort_key ?f tasks) = a # rest" by (simp add: filter_sort)
  then show ?thesis by (simp add: slowest_def find_filter)
qed

text \<open>Two tasks named \<^verbatim>\<open>work\<close>, both of duration 5: the first one closed is returned.\<close>

theorem slowest_tie_break_witness:
  "slowest ''work'' (take 2 tie_tasks) = Some (tie_tasks ! 0)"
  using slowest_tie_break
    [of "take 2 tie_tasks" "[]" "tie_tasks ! 0" "[]" "tie_tasks ! 1" "[]" "''work''"]
  by (simp add: tie_tasks_def)

text \<open>
  Claim C2 as it is stated fails: the first two tasks have the same name and duration, and
  the selection returns neither the earlier one nor the later one, but the third, which
  lasts longer.
\<close>

theorem slowest_tie_break_counterexample:
  "task_name (tie_tasks ! 0) = ''work'' \<and> task_name (tie_tasks ! 1) = ''work'' \<and>
   duration (tie_tasks ! 0) = duration (tie_tasks ! 1) \<and>
   slowest ''work'' tie_tasks = Some (tie_tasks ! 2) \<and>
   slowest ''work'' tie_tasks \<noteq> Some (tie_tasks ! 0)"
  by (simp add: tie_tasks_def slowest_def)

subsection \<open>C3: a completion line closes the innermost open task\<close>

text \<open>
  Claim C3, as amended. A line that begins with \<^verbatim>\<open>[T\<close>, carries a timestamp, contains
  \<^verbatim>\<open>Done\<close> and does not contain \<^verbatim>\<open>Start\<close>, ingested while a task is open, pops the
  innermost open task, sets its \<open>end_time\<close> to the timestamp and its \<open>duration\<close> to the
  difference, and appends it to the closed tasks; nothing else changes.
\<close>

theorem done_closes_innermost:
  assumes "startswith line ''[T''" and "timestamp line = Inr t"
    and "str_in ''Done'' line" and "\<not> str_in ''Start'' line"
    and "active_tasks s \<noteq> []"
  shows "ingest s line =
         Inr (s\<lparr>active_tasks := butlast (active_tasks s),
               all_tasks := all_tasks s @
                 [(last (active_tasks s))\<lparr>end_time := t,
                    duration := t - start_time (last (active_tasks s))\<rparr>]\<rparr>)"
  using assms by (simp add: ingest_def close_task_def)

text \<open>With \<^verbatim>\<open>outer\<close> and \<^verbatim>\<open>inner\<close> open, a completion at time 8 closes \<^verbatim>\<open>inner\<close>.\<close>

theorem done_closes_innermost_witness:
  "ingest two_open ''[T 8] Done inner\<newline>''
     = Inr \<lparr>active_tasks = [new_task ''outer'' 0],
            all_tasks = [\<lparr>task_name = ''inner'', start_time = 5, end_time = 8, duration = 3,
                         msm = Map.empty, fft = Map.empty\<rparr>]\<rparr>"
  using done_closes_innermost [of "''[T 8] Done inner\<newline>''" 8 two_open]
  by (simp add: two_open_def new_task_def timestamp_def timestamp_text_def py_int_def
      strip_int_def is_int_space_def py_unsigned_def digit_value_def decimal_digits_def)

text \<open>
  Claim C3 as it is stated fails: this line begins with \<^verbatim>\<open>[T\<close> and contains \<^verbatim>\<open>Done\<close>,
  a task is open, and the line opens a second task instead of closing the first, because
  it contains \<^verbatim>\<open>Start\<close> too.
\<close>

theorem done_closes_innermost_counterexample:
  "startswith ''[T 5] Start Done phase\<newline>'' ''[T'' \<and>
   str_in ''Done'' ''[T 5] Start Done phase\<newline>'' \<and>
   active_tasks one_open \<noteq> [] \<and>
   ingest one_open ''[T 5] Start Done phase\<newline>''
     = Inr \<lparr>active_tasks = [new_task ''outer'' 0, new_task ''Done phase'' 5],
            all_tasks = []\<rparr>"
  by (simp add: one_open_def run_defs)

subsection \<open>C4: a completion line with no open task\<close>

text \<open>
  Claim C4, as amended. A line that begins with \<^verbatim>\<open>[T\<close>, carries an integer
  timestamp (as the code reads it), contains \<^verbatim>\<open>Done\<close> and does not contain
  \<^verbatim>\<open>Start\<close>, ingested while no task is open, fails with an index error, and the run
  fails with it: the line is not ignored.
\<close>

theorem unmatched_done_fails:
  assumes "startswith line ''[T''" and "timestamp line = Inr t"
    and "str_in ''Done'' line" and "\<not> str_in ''Start'' line"
    and "active_tasks s = []"
  shows "ingest s line = Inl IndexError \<and>
         (ingest_all init_state pre = Inr s \<longrightarrow>
            parse_logs (pre @ line # post) = Inl IndexError)"
proof -
  have "ingest s line = Inl IndexError" using assms by (simp add: ingest_def)
  then show ?thesis using parse_logs_abort by simp
qed

text \<open>After the example log every task is closed; one more completion line fails.\<close>

theorem unmatched_done_fails_witness:
  "ingest \<lparr>active_tasks = [], all_tasks = [scenario_inner, scenario_outer]\<rparr>
     ''[T 30] Done outer\<newline>'' = Inl IndexError \<and>
   parse_logs (scenario_log @ ''[T 30] Done outer\<newline>'' # [''[T 40] Start next\<newline>''])
     = Inl IndexError"
  using unmatched_done_fails [of "''[T 30] Done outer\<newline>''" 30
      "\<lparr>active_tasks = [], all_tasks = [scenario_inner, scenario_outer]\<rparr>"
      scenario_log "[''[T 40] Start next\<newline>'']"] scenario_run
  by (simp add: timestamp_def timestamp_text_def py_int_def
      strip_int_def is_int_space_def py_unsigned_def digit_value_def decimal_digits_def)

text \<open>
  Claim C4 as it is stated fails: this line begins with \<^verbatim>\<open>[T\<close>, contains \<^verbatim>\<open>Done\<close>
  and is not a start line, no task is open, and the failure is the one of \<^verbatim>\<open>int\<close>, not
  an index error: the timestamp is read before the stack is touched, and from the fourth
  character on nothing is left before the \<^verbatim>\<open>]\<close>.
\<close>

theorem unmatched_done_fails_counterexample:
  "startswith ''[T8] Done inner\<newline>'' ''[T'' \<and>
   str_in ''Done'' ''[T8] Done inner\<newline>'' \<and>
   \<not> str_in ''Start'' ''[T8] Done inner\<newline>'' \<and>
   active_tasks init_state = [] \<and>
   ingest init_state ''[T8] Done inner\<newline>'' = Inl InvalidLiteral \<and>
   ingest init_state ''[T8] Done inner\<newline>'' \<noteq> Inl IndexError"
  by (simp add: run_defs)

subsection \<open>C5: an operation count changes one counter of the innermost open task\<close>

text \<open>
  Claim C5. For a line \<^verbatim>\<open><op> <size>\<close> that starts with \<^verbatim>\<open>msm\<close> or \<^verbatim>\<open>fft\<close> and
  whose first token is that kind: with no open task the state does not change; with an
  open task the result is the same state, except that in the innermost open task the
  counter of that kind for that size label is one more (1 when it was absent). The other
  open tasks, the order of the stack, the closed tasks, the other fields of the task, its
  other kind of counter and its other size labels are as before.
\<close>

theorem operation_count_frame:
  assumes "startswith line ''msm'' \<or> startswith line ''fft''"
    and "split_ws line = [operation, sz]"
    and "operation = ''msm'' \<or> operation = ''fft''"
  shows "(active_tasks s = [] \<longrightarrow> ingest s line = Inr s) \<and>
         (active_tasks s \<noteq> [] \<longrightarrow>
            ingest s line = Inr (s\<lparr>active_tasks := butlast (active_tasks s) @
              [if operation = ''msm''
               then (last (active_tasks s))\<lparr>msm := (msm (last (active_tasks s)))
                      (sz \<mapsto> (case msm (last (active_tasks s)) sz of
                                 None \<Rightarrow> 1 | Some n \<Rightarrow> n + 1))\<rparr>
               else (last (active_tasks s))\<lparr>fft := (fft (last (active_tasks s)))
                      (sz \<mapsto> (case fft (last (active_tasks s)) sz of
                                 None \<Rightarrow> 1 | Some n \<Rightarrow> n + 1))\<rparr>]\<rparr>))"
proof -
  have nt: "\<not> startswith line ''[T''" using assms(1) by (rule op_line_not_timed)
  show ?thesis using assms nt
    by (auto simp add: ingest_def count_op_def bump_def split: option.splits)
qed

text \<open>
  With \<^verbatim>\<open>outer\<close> and \<^verbatim>\<open>inner\<close> open, \<^verbatim>\<open>msm 10\<close> counts on \<^verbatim>\<open>inner\<close> only; with no
  task open it changes nothing.
\<close>

theorem operation_count_frame_witness:
  "ingest two_open ''msm 10\<newline>''
     = Inr \<lparr>active_tasks = [new_task ''outer'' 0,
              \<lparr>task_name = ''inner'', start_time = 5, end_time = - 1, duration = - 1,
               msm = [''10'' \<mapsto> 1], fft = Map.empty\<rparr>],
            all_tasks = []\<rparr> \<and>
   ingest init_state ''msm 10\<newline>'' = Inr init_state"
  using operation_count_frame [of "''msm 10\<newline>''" "''msm''" "''10''" two_open]
    operation_count_frame [of "''msm 10\<newline>''" "''msm''" "''10''" init_state]
  by (simp add: two_open_def init_state_def new_task_def split_ws_def is_space_def)

subsection \<open>C6: lines of an unrecognised kind\<close>

text \<open>
  Claim C6, as amended. A line whose first token begins with none of \<^verbatim>\<open>[T\<close>, \<^verbatim>\<open>msm\<close>
  and \<^verbatim>\<open>fft\<close> is ignored: the state does not change and nothing fails.
\<close>

theorem unrecognized_line_ignored:
  assumes "split_ws line = operation # rest"
    and "\<not> startswith operation ''[T''"
    and "\<not> startswith operation ''msm''" and "\<not> startswith operation ''fft''"
  shows "ingest s line = Inr s"
proof -
  have "\<not> startswith line ''[T''"
    using first_token_prefix [of line "''[T''"] assms(1,2) by (auto simp: is_space_def)
  moreover have "\<not> startswith line ''msm''"
    using first_token_prefix [of line "''msm''"] assms(1,3) by (auto simp: is_space_def)
  moreover have "\<not> startswith line ''fft''"
    using first_token_prefix [of line "''fft''"] assms(1,4) by (auto simp: is_space_def)
  ultimately show ?thesis by (simp add: ingest_def)
qed

text \<open>A count of another kind, with a task open.\<close>

theorem unrecognized_line_ignored_witness:
  "ingest one_open ''ntt 10\<newline>'' = Inr one_open"
  using unrecognized_line_ignored [of "''ntt 10\<newline>''" "''ntt''" "[''10'']" one_open]
  by (simp add: split_ws_def is_space_def)

text \<open>
  Claim C6 as it is stated fails: the token \<^verbatim>\<open>msmx\<close> is neither \<^verbatim>\<open>msm\<close> nor
  \<^verbatim>\<open>fft\<close>, and with a task open the line fails with a key error.
\<close>

theorem unrecognized_line_ignored_counterexample:
  "split_ws ''msmx 10\<newline>'' = [''msmx'', ''10''] \<and>
   ''msmx'' \<noteq> ''msm'' \<and> ''msmx'' \<noteq> ''fft'' \<and>
   ingest one_open ''msmx 10\<newline>'' = Inl KeyError"
  by (simp add: one_open_def run_defs)

subsection \<open>C7: a timestamp that is not an integer\<close>

text \<open>
  Claim C7, as amended. When a line begins with \<^verbatim>\<open>[T\<close> and its text from the fourth
  character up to the first \<^verbatim>\<open>]\<close> (up to the end of the line when it has none) is not
  an integer for \<^verbatim>\<open>int\<close>, ingesting it fails with the error of \<^verbatim>\<open>int\<close>, and the run
  fails with it whatever follows: it returns no task.
\<close>

theorem malformed_timestamp_aborts:
  assumes "startswith line ''[T''" and "py_int (drop 3 (before_first '']'' line)) = None"
  shows "ingest s line = Inl InvalidLiteral \<and>
         (ingest_all init_state pre = Inr s \<longrightarrow>
            parse_logs (pre @ line # post) = Inl InvalidLiteral)"
proof -
  have "ingest s line = Inl InvalidLiteral"
    using assms by (simp add: ingest_def timestamp_def timestamp_text_before)
  then show ?thesis using parse_logs_abort by simp
qed

text \<open>The example log, then a line with letters for a timestamp, then one more line.\<close>

theorem malformed_timestamp_aborts_witness:
  "ingest \<lparr>active_tasks = [], all_tasks = [scenario_inner, scenario_outer]\<rparr>
     ''[Txyz] Start next\<newline>'' = Inl InvalidLiteral \<and>
   parse_logs (scenario_log @ ''[Txyz] Start next\<newline>'' # [''[T 50] Done next\<newline>''])
     = Inl InvalidLiteral"
  using malformed_timestamp_aborts [of "''[Txyz] Start next\<newline>''"
      "\<lparr>active_tasks = [], all_tasks = [scenario_inner, scenario_outer]\<rparr>"
      scenario_log "[''[T 50] Done next\<newline>'']"] scenario_run
  by (simp add: py_int_def strip_int_def is_int_space_def py_unsigned_def digit_value_def decimal_digits_def)

text \<open>
  Claim C7 as it is stated fails: the text between the \<^verbatim>\<open>T\<close> and the \<^verbatim>\<open>]\<close> of this
  line is \<^verbatim>\<open>x5\<close>, which is not an integer, and the line is ingested with timestamp 5.
\<close>

theorem malformed_timestamp_aborts_counterexample:
  "startswith ''[Tx5] Start a\<newline>'' ''[T'' \<and>
   drop 2 (before_first '']'' ''[Tx5] Start a\<newline>'') = ''x5'' \<and>
   spec_timestamp ''[Tx5] Start a\<newline>'' = None \<and>
   ingest init_state ''[Tx5] Start a\<newline>''
     = Inr \<lparr>active_tasks = [new_task ''a'' 5], all_tasks = []\<rparr>"
  by (simp add: spec_timestamp_def run_defs)

subsection \<open>C8: a well-nested log\<close>

text \<open>
  Claim C8. When the log is well nested (every start has its completion), then after all
  its lines have been ingested the number of start lines equals the number of completion
  lines, which equals the number of closed tasks, and no task is open.
\<close>

theorem balanced_nesting:
  assumes "well_nested ls" and "ingest_all init_state ls = Inr s"
  shows "length (filter is_start_line ls) = length (filter is_done_line ls) \<and>
         length (filter is_done_line ls) = length (all_tasks s) \<and>
         active_tasks s = []"
proof -
  have "0 + length (filter (\<lambda>e. e = Start) (map event_of ls))
      = length (filter (\<lambda>e. e = Done) (map event_of ls))"
    using assms(1) unfolding well_nested_def by (rule balanced_from_counts)
  then have "length (filter is_start_line ls) = length (filter is_done_line ls)"
    unfolding filter_event_start filter_event_done by simp
  then show ?thesis using run_counts [OF assms(2)] by simp
qed

text \<open>The example log: two starts, two completions, two closed tasks.\<close>

theorem balanced_nesting_witness:
  "well_nested scenario_log \<and>
   ingest_all init_state scenario_log
     = Inr \<lparr>active_tasks = [], all_tasks = [scenario_inner, scenario_outer]\<rparr> \<and>
   length (filter is_start_line scenario_log) = 2 \<and>
   length (filter is_done_line scenario_log) = 2"
  using balanced_nesting [OF scenario_nested scenario_run] scenario_nested scenario_run
  by simp

subsection \<open>C9: the name of a new task\<close>

text \<open>
  Claim C9, as amended. The name stored for a new open task is the text after the first
  occurrence of \<^verbatim>\<open>Start \<close> up to the next occurrence of \<^verbatim>\<open>Start \<close> (up to the end
  of the line when there is none), with its last character removed whatever it is; so a
  start line with one \<^verbatim>\<open>Start \<close> and no line terminator gives the name without its
  last character.
\<close>

theorem start_name_text:
  assumes "startswith line ''[T''" and "timestamp line = Inr t"
    and "str_in ''Start'' line" and "after_first ''Start '' line = Some r"
  shows "ingest s line =
         Inr (s\<lparr>active_tasks := active_tasks s @
               [\<lparr>task_name = butlast (before_first ''Start '' r), start_time = t,
                 end_time = - 1, duration = - 1, msm = Map.empty, fft = Map.empty\<rparr>]\<rparr>)"
proof -
  obtain ps where "split_sep ''Start '' line
      = before_first ''Start '' line # before_first ''Start '' r # ps"
    using split_sep_second [of "''Start ''" line r] assms(4) by auto
  then have "start_name line = Inr (butlast (before_first ''Start '' r))"
    by (simp add: start_name_def)
  then show ?thesis using assms(1,2,3) by (simp add: ingest_def new_task_def)
qed

text \<open>The last line of a file, with no terminator: \<^verbatim>\<open>outer\<close> is stored as \<^verbatim>\<open>oute\<close>.\<close>

theorem start_name_text_witness:
  "ingest init_state ''[T 0] Start outer''
     = Inr \<lparr>active_tasks = [new_task ''oute'' 0], all_tasks = []\<rparr>"
  using start_name_text [of "''[T 0] Start outer''" 0 "''outer''" init_state]
  by (simp add: init_state_def new_task_def timestamp_def timestamp_text_def py_int_def
      strip_int_def is_int_space_def py_unsigned_def digit_value_def decimal_digits_def)

text \<open>
  Claim C9 as it is stated fails: the text after the first \<^verbatim>\<open>Start \<close> of this line,
  without its last character, is \<^verbatim>\<open>a Start b\<close>; the name stored is \<^verbatim>\<open>a\<close>.
\<close>

theorem start_name_text_counterexample:
  "ingest init_state ''[T 1] Start a Start b\<newline>''
     = Inr \<lparr>active_tasks = [new_task ''a'' 1], all_tasks = []\<rparr> \<and>
   spec_task_name ''[T 1] Start a Start b\<newline>'' = Some ''a Start b''"
  by (simp add: spec_task_name_def run_defs)

subsection \<open>C10: an operation line without exactly two tokens\<close>

text \<open>
  Claim C10. A line that starts with \<^verbatim>\<open>msm\<close> or \<^verbatim>\<open>fft\<close> and does not split on white
  space into exactly two tokens fails, in the assignment to the two names, whether a task
  is open or not, and the run fails with it: the line is not ignored.
\<close>

theorem bad_operation_line_aborts:
  assumes "startswith line ''msm'' \<or> startswith line ''fft''"
    and "length (split_ws line) \<noteq> 2"
  shows "ingest s line = Inl UnpackError \<and>
         (ingest_all init_state pre = Inr s \<longrightarrow>
            parse_logs (pre @ line # post) = Inl UnpackError)"
proof -
  have nt: "\<not> startswith line ''[T''" using assms(1) by (rule op_line_not_timed)
  have "ingest s line = Inl UnpackError"
  proof (cases "split_ws line")
    case Nil
    then show ?thesis using assms(1) nt by (simp add: ingest_def)
  next
    case (Cons a as)
    note c1 = Cons
    show ?thesis
    proof (cases as)
      case Nil
      then show ?thesis using assms(1) nt c1 by (simp add: ingest_def)
    next
      case (Cons b bs)
      then have "bs \<noteq> []" using assms(2) c1 by auto
      then obtain c cs where "bs = c # cs" by (cases bs) auto
      then show ?thesis using assms(1) nt c1 Cons by (simp add: ingest_def)
    qed
  qed
  then show ?thesis using parse_logs_abort by simp
qed

text \<open>\<^verbatim>\<open>msm 10 20\<close> has three tokens: it fails with no task open, and ends the run.\<close>

theorem bad_operation_line_aborts_witness:
  "ingest init_state ''msm 10 20\<newline>'' = Inl UnpackError \<and>
   parse_logs ([] @ ''msm 10 20\<newline>'' # scenario_log) = Inl UnpackError"
  using bad_operation_line_aborts [of "''msm 10 20\<newline>''" init_state "[]" scenario_log]
  by (simp add: split_ws_def is_space_def)

end
